theory Spec2Isabelle
  imports Main
begin

section \<open>Python values used by the embedding\<close>

text \<open>
  The exceptions the two modules can raise.  \<open>KeyError\<close> and \<open>IndexError\<close> are the
  built-in subclasses of \<open>LookupError\<close>; \<open>IllegalOperation\<close> is imported from the
  package's \<open>Errors\<close> module; \<open>UnboundLocalError\<close> is what reading a local
  variable that was never assigned raises; \<open>TypeError\<close> is what the string operator
  \<open>%\<close> raises when the arguments do not fit the format.
\<close>

datatype error = KeyError | IndexError | IllegalOperation | UnboundLocalError | TypeError

fun is_LookupError :: "error \<Rightarrow> bool" where
  "is_LookupError KeyError = True"
| "is_LookupError IndexError = True"
| "is_LookupError IllegalOperation = False"
| "is_LookupError UnboundLocalError = False"
| "is_LookupError TypeError = False"

text \<open>
  \<open>xs[i]\<close> on a Python list: an index in \<open>-len(xs) .. -1\<close> counts from the end, an
  index outside \<open>-len(xs) .. len(xs) - 1\<close> raises \<open>IndexError\<close>.
\<close>

definition list_getitem :: "'a list \<Rightarrow> int \<Rightarrow> error + 'a" where
  "list_getitem xs i =
     (if 0 \<le> i \<and> i < int (length xs) then Inr (xs ! nat i)
      else if i < 0 \<and> - int (length xs) \<le> i then Inr (xs ! nat (int (length xs) + i))
      else Inl IndexError)"

section \<open>AtomFactory.py\<close>

record 'a AtomFactory =
  name :: string
  obj_to_atom :: "'a \<rightharpoonup> int"
  atom_to_obj :: "'a list"
  locked :: bool

definition init :: "string \<Rightarrow> 'a AtomFactory" where
  "init nm = \<lparr>name = nm, obj_to_atom = Map.empty, atom_to_obj = [], locked = False\<rparr>"

text \<open>
  \<open>__getitem__\<close> returns the atom or re-raises the \<open>KeyError\<close> of the dictionary; the
  second component is the receiver after the call.
\<close>

definition getitem :: "'a AtomFactory \<Rightarrow> 'a \<Rightarrow> (error + int) \<times> 'a AtomFactory" where
  "getitem self obj =
     (case obj_to_atom self obj of
        Some a \<Rightarrow> (Inr a, self)
      | None \<Rightarrow>
          if locked self then (Inl KeyError, self)
          else (let a = int (length (atom_to_obj self)) + 1
                in (Inr a, self\<lparr>obj_to_atom := (obj_to_atom self)(obj \<mapsto> a),
                                atom_to_obj := atom_to_obj self @ [obj]\<rparr>)))"

definition get_object :: "'a AtomFactory \<Rightarrow> int \<Rightarrow> error + 'a" where
  "get_object self a = list_getitem (atom_to_obj self) (a - 1)"

definition call :: "'a AtomFactory \<Rightarrow> int \<Rightarrow> error + 'a" where
  "call self a = list_getitem (atom_to_obj self) (a - 1)"

definition len :: "'a AtomFactory \<Rightarrow> int" where
  "len self = int (length (atom_to_obj self))"


definition lock :: "'a AtomFactory \<Rightarrow> 'a AtomFactory" where
  "lock self = self\<lparr>locked := True\<rparr>"

text \<open>
  \<open>remove\<close> creates a second factory object and mutates it while it reads the
  receiver, so it is modelled on a store of factory objects: an address is an index
  into the store and the constructor allocates the next one.
\<close>

type_synonym 'a store = "'a AtomFactory list"

definition alloc :: "string \<Rightarrow> 'a store \<Rightarrow> nat \<times> 'a store" where
  "alloc nm st = (length st, st @ [init nm])"

definition getitem_at :: "nat \<Rightarrow> 'a \<Rightarrow> 'a store \<Rightarrow> (error + int) \<times> 'a store" where
  "getitem_at p obj st = (case getitem (st ! p) obj of (r, f) \<Rightarrow> (r, st[p := f]))"

fun remove_loop :: "nat \<Rightarrow> 'a set \<Rightarrow> 'a list \<Rightarrow> 'a store \<Rightarrow> error + 'a store" where
  "remove_loop new_af objects [] st = Inr st"
| "remove_loop new_af objects (obj # rest) st =
     (if obj \<notin> objects
      then (case getitem_at new_af obj st of
              (Inl e, st') \<Rightarrow> Inl e
            | (Inr a, st') \<Rightarrow> remove_loop new_af objects rest st')
      else remove_loop new_af objects rest st)"

definition remove :: "nat \<Rightarrow> 'a set \<Rightarrow> 'a store \<Rightarrow> error + (nat \<times> 'a store)" where
  "remove self objects st =
     (case alloc (name (st ! self)) st of
        (new_af, st1) \<Rightarrow>
          (case remove_loop new_af objects (atom_to_obj (st1 ! self)) st1 of
             Inl e \<Rightarrow> Inl e
           | Inr st2 \<Rightarrow> Inr (new_af, st2)))"




text \<open>
  The bimap invariant of the data model.  A dictionary has finitely many keys, so
  \<open>len(obj_to_atom)\<close> is the cardinality of the map's domain.
\<close>

definition bimap_inv :: "'a AtomFactory \<Rightarrow> bool" where
  "bimap_inv f \<longleftrightarrow>
     finite (dom (obj_to_atom f)) \<and>
     card (dom (obj_to_atom f)) = length (atom_to_obj f) \<and>
     (\<forall>a \<in> {1 .. len f}. obj_to_atom f (atom_to_obj f ! nat (a - 1)) = Some a)"

text \<open>Inserting a sequence of objects one after the other, ignoring the atoms.\<close>

definition inserts :: "'a AtomFactory \<Rightarrow> 'a list \<Rightarrow> 'a AtomFactory" where
  "inserts f xs = foldl (\<lambda>g x. snd (getitem g x)) f xs"

section \<open>IO.py: string operations used by the parsers\<close>

definition startswith :: "string \<Rightarrow> string \<Rightarrow> bool" where
  "startswith s p = (take (length p) s = p)"

text \<open>The characters \<open>str.strip()\<close> removes: space, tab, newline, VT, FF and CR.\<close>

definition isspace :: "char \<Rightarrow> bool" where
  "isspace c = (c \<in> set [CHR '' '', CHR 0x09, CHR 0x0A, CHR 0x0B, CHR 0x0C, CHR 0x0D])"

definition strip :: "string \<Rightarrow> string" where
  "strip s = rev (dropWhile isspace (rev (dropWhile isspace s)))"

text \<open>\<open>s.find(c, start)\<close> for a one-character needle: the lowest index, or \<open>-1\<close>.\<close>

definition find_from :: "string \<Rightarrow> char \<Rightarrow> nat \<Rightarrow> int" where
  "find_from s c start =
     (let r = drop start s
      in if c \<in> set r then int (start + length (takeWhile (\<lambda>x. x \<noteq> c) r)) else - 1)"

text \<open>\<open>s[i:j]\<close>: a negative bound counts from the end, and both bounds are clipped.\<close>

definition clip :: "int \<Rightarrow> int \<Rightarrow> int" where
  "clip n k = (if k < 0 then max 0 (n + k) else min n k)"

definition slice :: "string \<Rightarrow> int \<Rightarrow> int \<Rightarrow> string" where
  "slice s i j =
     (let n = int (length s); lo = clip n i; hi = clip n j
      in take (nat (hi - lo)) (drop (nat lo) s))"

text \<open>
  The pattern \<open>([^ ]+) 1\<close> at the start of \<open>s\<close>: the greedy group takes the whole run
  of non-space characters, and a shorter group is followed by a non-space character,
  so the pattern matches here exactly when the run is non-empty and is followed by a
  space and \<open>1\<close>.  The result is the group and the text after the match.
\<close>

definition cat_regex_match :: "string \<Rightarrow> (string \<times> string) option" where
  "cat_regex_match s =
     (let g = takeWhile (\<lambda>c. c \<noteq> CHR '' '') s; r = dropWhile (\<lambda>c. c \<noteq> CHR '' '') s
      in if g \<noteq> [] \<and> take 2 r = '' 1'' then Some (g, drop 2 r) else None)"

text \<open>
  \<open>[c.group(1) for c in cat_regex.finditer(line)]\<close>: the matches from left to right,
  each search starting where the previous match ended.
\<close>

function cat_regex_finditer :: "string \<Rightarrow> string list" where
  "cat_regex_finditer [] = []"
| "cat_regex_finditer (c # s) =
     (case cat_regex_match (c # s) of
        Some (g, rest) \<Rightarrow> g # cat_regex_finditer rest
      | None \<Rightarrow> cat_regex_finditer s)"
  by pat_completeness auto
termination
proof (relation "measure length")
  show "wf (measure length)" by simp
next
  fix c s x2 x y
  assume "cat_regex_match (c # s) = Some x2" and "(x, y) = x2"
  then have "y = drop 2 (dropWhile (\<lambda>c. c \<noteq> CHR '' '') (c # s))"
    by (auto simp: cat_regex_match_def Let_def split: if_splits)
  moreover have "length (dropWhile (\<lambda>c. c \<noteq> CHR '' '') (c # s)) \<le> length (c # s)"
    by (rule length_dropWhile_le)
  ultimately show "(y, c # s) \<in> measure length"
    using \<open>cat_regex_match (c # s) = Some x2\<close>
    by (auto simp: cat_regex_match_def Let_def split: if_splits)
next
  fix c s
  show "(s, c # s) \<in> measure length" by simp
qed

section \<open>IO.py: StateMachineFileParser\<close>

text \<open>
  What a state function returns: the name of the next state, \<open>None\<close> to stay, or
  \<open>False\<close> to terminate.
\<close>

datatype hret = Goto string | Stay | Stop

type_synonym 's handler = "string \<Rightarrow> 's \<Rightarrow> hret \<times> 's"

text \<open>
  \<open>__introspect\<close> registers every method whose name begins with \<open>on\<close> under the rest
  of its name; \<open>ons\<close> are the state functions of the subclass, and \<open>onFinish\<close>, which
  returns nothing, is registered as state \<open>Finish\<close> with them.
\<close>

definition introspect ::
  "(string \<rightharpoonup> 's handler) \<Rightarrow> (string \<Rightarrow> 's \<Rightarrow> 's) \<Rightarrow> (string \<rightharpoonup> 's handler)" where
  "introspect ons onFinish = ons(''Finish'' \<mapsto> (\<lambda>line s. (Stay, onFinish line s)))"

text \<open>
  The \<open>for\<close> loop of \<open>parse\<close>.  It threads the current state, the loop variable \<open>line\<close>
  (\<open>None\<close> while unbound) and the parser object, and returns them with the lines left
  unread and whether the loop was left by \<open>break\<close>.  An unregistered state raises
  \<open>KeyError\<close>.
\<close>

fun loop ::
  "(string \<rightharpoonup> 's handler) \<Rightarrow> string \<Rightarrow> string option \<Rightarrow> string list \<Rightarrow> 's \<Rightarrow>
     error + (bool \<times> string \<times> string option \<times> string list \<times> 's)" where
  "loop fns state line [] s = Inr (False, state, line, [], s)"
| "loop fns state line (l # fin) s =
     (case fns state of
        None \<Rightarrow> Inl KeyError
      | Some fn \<Rightarrow>
          (case fn l s of
             (Stop, s') \<Rightarrow> Inr (True, state, Some l, fin, s')
           | (Stay, s') \<Rightarrow> loop fns state (Some l) fin s'
           | (Goto newstate, s') \<Rightarrow> loop fns newstate (Some l) fin s'))"

text \<open>
  \<open>parse\<close> runs the loop and then calls \<open>onFinish(line)\<close>; reading \<open>line\<close> when the loop
  never bound it raises \<open>UnboundLocalError\<close>.  The result is the unread lines and the
  parser object.
\<close>

definition parse ::
  "(string \<rightharpoonup> 's handler) \<Rightarrow> (string \<Rightarrow> 's \<Rightarrow> 's) \<Rightarrow> string \<Rightarrow> string list \<Rightarrow> 's \<Rightarrow>
     error + (string list \<times> 's)" where
  "parse ons onFinish start fin s =
     (case loop (introspect ons onFinish) start None fin s of
        Inl e \<Rightarrow> Inl e
      | Inr (broke, state, None, rest, s') \<Rightarrow> Inl UnboundLocalError
      | Inr (broke, state, Some line, rest, s') \<Rightarrow> Inr (rest, onFinish line s'))"

section \<open>IO.py: the record callback\<close>

text \<open>
  The callback is supplied by the caller.  Its result is compared with \<open>False\<close> only,
  and it may depend on the records the callback has received before, so it is a
  function of that history and of the record; every invocation is appended to
  \<open>calls\<close>.
\<close>

datatype cbret = ReturnsFalse | ReturnsOther

record 'r parser_fields =
  docid :: "string option"
  textlines :: "string list"
  callback :: "'r list \<Rightarrow> 'r \<Rightarrow> cbret"
  calls :: "'r list"

section \<open>IO.py: TrecParser\<close>

type_synonym TrecParser = "(string option \<times> string) parser_fields"

definition TrecParser_init ::
  "((string option \<times> string) list \<Rightarrow> string option \<times> string \<Rightarrow> cbret) \<Rightarrow> TrecParser" where
  "TrecParser_init cb = \<lparr>docid = None, textlines = [], callback = cb, calls = []\<rparr>"

definition TrecParser_onMisc :: "TrecParser handler" where
  "TrecParser_onMisc line self =
     (if startswith line ''<DOCNO>''
      then (let p = find_from line CHR ''<'' 7
            in (Goto ''GotDocId'',
                self\<lparr>docid := Some (strip (slice line 7 p)), textlines := []\<rparr>))
      else (Stay, self))"

definition TrecParser_onGotDocId :: "TrecParser handler" where
  "TrecParser_onGotDocId line self =
     (if startswith line ''<TEXT>'' then (Goto ''Text'', self) else (Stay, self))"

definition TrecParser_onText :: "TrecParser handler" where
  "TrecParser_onText line self =
     (if startswith line ''</TEXT>''
      then (let record = (docid self, concat (textlines self));
                r = callback self (calls self) record;
                self' = self\<lparr>calls := calls self @ [record]\<rparr>
            in if r = ReturnsFalse then (Stop, self') else (Goto ''Misc'', self'))
      else (Stay, self\<lparr>textlines := textlines self @ [line]\<rparr>))"

definition TrecParser_onFinish :: "string \<Rightarrow> TrecParser \<Rightarrow> TrecParser" where
  "TrecParser_onFinish line self = self"

definition TrecParser_ons :: "string \<rightharpoonup> TrecParser handler" where
  "TrecParser_ons =
     [''GotDocId'' \<mapsto> TrecParser_onGotDocId, ''Misc'' \<mapsto> TrecParser_onMisc,
      ''Text'' \<mapsto> TrecParser_onText]"

definition TrecParser_parse ::
  "((string option \<times> string) list \<Rightarrow> string option \<times> string \<Rightarrow> cbret) \<Rightarrow> string list \<Rightarrow>
     error + (string list \<times> TrecParser)" where
  "TrecParser_parse cb fin =
     parse TrecParser_ons TrecParser_onFinish ''Misc'' fin (TrecParser_init cb)"

section \<open>IO.py: SMARTParser\<close>

record SMARTParser = "(string option \<times> string list option \<times> string) parser_fields" +
  cats :: "string list option"
  sectionheader :: "string option"
  allowedsections :: "string list option"

definition SMARTParser_init ::
  "((string option \<times> string list option \<times> string) list \<Rightarrow>
      string option \<times> string list option \<times> string \<Rightarrow> cbret) \<Rightarrow>
   string list option \<Rightarrow> SMARTParser" where
  "SMARTParser_init cb sections =
     \<lparr>docid = None, textlines = [], callback = cb, calls = [],
      cats = None, sectionheader = None, allowedsections = sections\<rparr>"

text \<open>\<open>doCallBack\<close> invokes the callback and drops what it returns.\<close>

definition doCallBack :: "SMARTParser \<Rightarrow> SMARTParser" where
  "doCallBack self =
     (if length (textlines self) \<noteq> 0
      then (let record = (docid self, cats self, concat (textlines self));
                r = callback self (calls self) record
            in self\<lparr>calls := calls self @ [record]\<rparr>)
      else self)"

definition SMARTParser_onMisc :: "SMARTParser handler" where
  "SMARTParser_onMisc line self =
     (if startswith line ''.I''
      then (Goto ''GotDocId'',
            self\<lparr>docid := Some (strip (drop 2 line)), textlines := [],
                 cats := None, sectionheader := None\<rparr>)
      else (Stay, self))"

definition SMARTParser_onGotDocId :: "SMARTParser handler" where
  "SMARTParser_onGotDocId line self =
     (if startswith line ''.C'' then (Goto ''SawDotC'', self) else (Stay, self))"

definition SMARTParser_onSawDotC :: "SMARTParser handler" where
  "SMARTParser_onSawDotC line self =
     (Goto ''SectionHeader'', self\<lparr>cats := Some (cat_regex_finditer line)\<rparr>)"

definition SMARTParser_onSectionHeader :: "SMARTParser handler" where
  "SMARTParser_onSectionHeader line self =
     (Goto ''SectionText'', self\<lparr>sectionheader := Some (take 1 (drop 1 line))\<rparr>)"

definition SMARTParser_onSectionText :: "SMARTParser handler" where
  "SMARTParser_onSectionText line self =
     (if startswith line ''.''
      then (if startswith line ''.I''
            then SMARTParser_onMisc line (doCallBack self)
            else SMARTParser_onSectionHeader line self)
      else (case allowedsections self of
              None \<Rightarrow> (Stay, self\<lparr>textlines := textlines self @ [line]\<rparr>)
            | Some secs \<Rightarrow>
                if sectionheader self \<notin> set (map Some secs) then (Stay, self)
                else (Stay, self\<lparr>textlines := textlines self @ [line]\<rparr>)))"

definition SMARTParser_onFinish :: "string \<Rightarrow> SMARTParser \<Rightarrow> SMARTParser" where
  "SMARTParser_onFinish line self = doCallBack self"

definition SMARTParser_ons :: "string \<rightharpoonup> SMARTParser handler" where
  "SMARTParser_ons =
     [''GotDocId'' \<mapsto> SMARTParser_onGotDocId, ''Misc'' \<mapsto> SMARTParser_onMisc,
      ''SawDotC'' \<mapsto> SMARTParser_onSawDotC, ''SectionHeader'' \<mapsto> SMARTParser_onSectionHeader,
      ''SectionText'' \<mapsto> SMARTParser_onSectionText]"

definition SMARTParser_parse ::
  "((string option \<times> string list option \<times> string) list \<Rightarrow>
      string option \<times> string list option \<times> string \<Rightarrow> cbret) \<Rightarrow>
   string list option \<Rightarrow> string list \<Rightarrow> error + (string list \<times> SMARTParser)" where
  "SMARTParser_parse cb sections fin =
     parse SMARTParser_ons SMARTParser_onFinish ''Misc'' fin (SMARTParser_init cb sections)"

text \<open>A line of a text file: the text and its newline.\<close>

definition ln :: "string \<Rightarrow> string" where
  "ln s = s @ [CHR 0x0A]"

section \<open>Consequences and preservation of the bimap invariant\<close>

lemma inv_nth: "bimap_inv f \<Longrightarrow> i < length (atom_to_obj f) \<Longrightarrow>
   obj_to_atom f (atom_to_obj f ! i) = Some (int i + 1)"
proof -
  assume a: "bimap_inv f" and b: "i < length (atom_to_obj f)"
  from b have "int i + 1 \<in> {1 .. len f}" by (simp add: len_def)
  with a have "obj_to_atom f (atom_to_obj f ! nat (int i + 1 - 1)) = Some (int i + 1)"
    unfolding bimap_inv_def by blast
  then show ?thesis by simp
qed

lemma inv_distinct: "bimap_inv f \<Longrightarrow> distinct (atom_to_obj f)"
proof -
  assume a: "bimap_inv f"
  show ?thesis
    unfolding distinct_conv_nth
  proof (intro allI impI)
    fix i j assume "i < length (atom_to_obj f)" "j < length (atom_to_obj f)" "i \<noteq> j"
    with inv_nth[OF a] have "obj_to_atom f (atom_to_obj f ! i) \<noteq> obj_to_atom f (atom_to_obj f ! j)"
      by simp
    then show "atom_to_obj f ! i \<noteq> atom_to_obj f ! j" by metis
  qed
qed

lemma inv_dom: "bimap_inv f \<Longrightarrow> dom (obj_to_atom f) = set (atom_to_obj f)"
proof -
  assume a: "bimap_inv f"
  have sub: "set (atom_to_obj f) \<subseteq> dom (obj_to_atom f)"
  proof
    fix x assume "x \<in> set (atom_to_obj f)"
    then obtain i where "i < length (atom_to_obj f)" "atom_to_obj f ! i = x"
      by (auto simp: in_set_conv_nth)
    with inv_nth[OF a] show "x \<in> dom (obj_to_atom f)" by auto
  qed
  have "card (set (atom_to_obj f)) = length (atom_to_obj f)"
    using inv_distinct[OF a] by (rule distinct_card)
  with a have "card (set (atom_to_obj f)) = card (dom (obj_to_atom f))"
    by (simp add: bimap_inv_def)
  moreover from a have "finite (dom (obj_to_atom f))" by (simp add: bimap_inv_def)
  ultimately show ?thesis using sub by (metis card_subset_eq)
qed


lemma inv_init: "bimap_inv (init nm)"
  by (simp add: bimap_inv_def init_def len_def)


lemma inv_getitem: "bimap_inv f \<Longrightarrow> bimap_inv (snd (getitem f x))"
proof -
  assume a: "bimap_inv f"
  show ?thesis
  proof (cases "obj_to_atom f x")
    case (Some b)
    then show ?thesis using a by (simp add: getitem_def)
  next
    case None
    show ?thesis
    proof (cases "locked f")
      case True
      then show ?thesis using a None by (simp add: getitem_def)
    next
      case False
      let ?n = "length (atom_to_obj f)"
      let ?g = "f\<lparr>obj_to_atom := (obj_to_atom f)(x \<mapsto> int ?n + 1), atom_to_obj := atom_to_obj f @ [x]\<rparr>"
      have g: "snd (getitem f x) = ?g" using None False by (simp add: getitem_def Let_def)
      from None have xd: "x \<notin> dom (obj_to_atom f)" by auto
      from a have fin: "finite (dom (obj_to_atom f))" and c: "card (dom (obj_to_atom f)) = ?n"
        by (simp_all add: bimap_inv_def)
      have "\<forall>b \<in> {1 .. len ?g}. obj_to_atom ?g (atom_to_obj ?g ! nat (b - 1)) = Some b"
      proof
        fix b assume b: "b \<in> {1 .. len ?g}"
        show "obj_to_atom ?g (atom_to_obj ?g ! nat (b - 1)) = Some b"
        proof (cases "b = int ?n + 1")
          case True
          then show ?thesis by simp
        next
          case F: False
          with b have lt: "nat (b - 1) < ?n" by (auto simp: len_def)
          with inv_nth[OF a lt] b have e: "obj_to_atom f (atom_to_obj f ! nat (b - 1)) = Some b" by simp
          with None have "atom_to_obj f ! nat (b - 1) \<noteq> x" by auto
          with e lt show ?thesis by (simp add: nth_append)
        qed
      qed
      with fin c xd show ?thesis unfolding g by (simp add: bimap_inv_def)
    qed
  qed
qed

lemma inv_inserts: "bimap_inv f \<Longrightarrow> bimap_inv (inserts f xs)"
  unfolding inserts_def
  by (induction xs arbitrary: f) (simp_all add: inv_getitem)

lemma getitem_unlocked:
  "\<not> locked f \<Longrightarrow> \<exists>a. fst (getitem f x) = Inr a"
  by (simp add: getitem_def Let_def split: option.splits)

lemma getitem_locked_eq: "locked (snd (getitem f x)) = locked f"
  by (simp add: getitem_def Let_def split: option.splits)

lemma getitem_name_eq: "name (snd (getitem f x)) = name f"
  by (simp add: getitem_def Let_def split: option.splits)

lemma inserts_locked_eq: "locked (inserts f xs) = locked f"
  unfolding inserts_def by (induction xs arbitrary: f) (simp_all add: getitem_locked_eq)

lemma inserts_Cons: "inserts f (x # xs) = inserts (snd (getitem f x)) xs"
  by (simp add: inserts_def)

lemma inserts_Nil: "inserts f [] = f"
  by (simp add: inserts_def)

lemma remove_loop_inserts:
  "new_af < length st \<Longrightarrow> \<not> locked (st ! new_af) \<Longrightarrow>
   remove_loop new_af S xs st =
     Inr (st[new_af := inserts (st ! new_af) (filter (\<lambda>x. x \<notin> S) xs)])"
proof (induction xs arbitrary: st)
  case Nil
  then show ?case by (simp add: inserts_Nil)
next
  case (Cons x xs)
  show ?case
  proof (cases "x \<in> S")
    case True
    with Cons show ?thesis by simp
  next
    case False
    from Cons.prems(2) have "\<exists>a. fst (getitem (st ! new_af) x) = Inr a"
      by (rule getitem_unlocked)
    then obtain a where a: "fst (getitem (st ! new_af) x) = Inr a" ..
    define g where "g = snd (getitem (st ! new_af) x)"
    define st1 where "st1 = st[new_af := g]"
    have "getitem (st ! new_af) x = (Inr a, g)"
      using a by (simp add: g_def prod_eq_iff)
    then have step: "getitem_at new_af x st = (Inr a, st1)"
      by (simp add: getitem_at_def st1_def)
    have l: "new_af < length st1" using Cons.prems(1) by (simp add: st1_def)
    have gn: "st1 ! new_af = g" using Cons.prems(1) by (simp add: st1_def)
    have u: "\<not> locked (st1 ! new_af)"
      using Cons.prems(2) by (simp add: gn g_def getitem_locked_eq)
    have "remove_loop new_af S (x # xs) st = remove_loop new_af S xs st1"
      using False step by simp
    also have "\<dots> = Inr (st1[new_af := inserts (st1 ! new_af) (filter (\<lambda>x. x \<notin> S) xs)])"
      using l u by (rule Cons.IH)
    also have "st1[new_af := inserts (st1 ! new_af) (filter (\<lambda>x. x \<notin> S) xs)]
        = st[new_af := inserts (st ! new_af) (filter (\<lambda>x. x \<notin> S) (x # xs))]"
      using False by (simp add: gn inserts_Cons) (simp add: st1_def g_def)
    finally show ?thesis .
  qed
qed

lemma remove_eq:
  "self < length st \<Longrightarrow>
   remove self S st =
     Inr (length st, st @ [inserts (init (name (st ! self))) (filter (\<lambda>x. x \<notin> S) (atom_to_obj (st ! self)))])"
proof -
  assume s: "self < length st"
  let ?st1 = "st @ [init (name (st ! self))]"
  have l: "length st < length ?st1" by simp
  have u: "\<not> locked (?st1 ! length st)" by (simp add: init_def)
  have r: "?st1 ! self = st ! self" using s by (simp add: nth_append)
  show ?thesis
    unfolding remove_def alloc_def
    using remove_loop_inserts[OF l u, of S "atom_to_obj (st ! self)"] r
    by simp
qed

lemma getitem_new_obj:
  "\<not> locked f \<Longrightarrow> obj_to_atom f x = None \<Longrightarrow>
   atom_to_obj (snd (getitem f x)) = atom_to_obj f @ [x]"
  by (simp add: getitem_def Let_def)

lemma inserts_fresh:
  "bimap_inv f \<Longrightarrow> \<not> locked f \<Longrightarrow> distinct xs \<Longrightarrow> set xs \<inter> set (atom_to_obj f) = {} \<Longrightarrow>
   atom_to_obj (inserts f xs) = atom_to_obj f @ xs"
proof (induction xs arbitrary: f)
  case Nil
  then show ?case by (simp add: inserts_Nil)
next
  case (Cons x xs)
  let ?g = "snd (getitem f x)"
  from Cons.prems have "x \<notin> dom (obj_to_atom f)" by (simp add: inv_dom)
  then have n: "obj_to_atom f x = None" by auto
  have g: "atom_to_obj ?g = atom_to_obj f @ [x]"
    using getitem_new_obj[OF Cons.prems(2) n] .
  have "atom_to_obj (inserts ?g xs) = atom_to_obj ?g @ xs"
  proof (rule Cons.IH)
    show "bimap_inv ?g" using Cons.prems(1) by (rule inv_getitem)
    show "\<not> locked ?g" using Cons.prems(2) by (simp add: getitem_locked_eq)
    show "distinct xs" using Cons.prems(3) by simp
    show "set xs \<inter> set (atom_to_obj ?g) = {}" using Cons.prems(3,4) g by auto
  qed
  with g show ?case by (simp add: inserts_Cons)
qed

section \<open>Looking up atoms: \<open>get_object\<close>\<close>

text \<open>
  Counterexample to claim C4 as stated: in a factory of size 1 the atom \<open>0\<close> is not
  positive, yet \<open>get_object(0)\<close> raises nothing.  The index \<open>a - 1 = -1\<close> is a valid
  negative list index and selects the last object.
\<close>

theorem get_object_zero_counterexample:
  "len (snd (getitem (init ''tokens'') ''apples'')) = 1 \<and>
   get_object (snd (getitem (init ''tokens'') ''apples'')) 0 = Inr ''apples''"
  by (simp add: len_def get_object_def list_getitem_def getitem_def init_def)

text \<open>
  Claim C4, amended.  \<open>get_object(a)\<close> raises \<open>IndexError\<close> exactly when \<open>a > size\<close> or
  \<open>a \<le> -size\<close>.  For \<open>1 \<le> a \<le> size\<close> it returns the object at position \<open>a - 1\<close>, which
  under the bimap invariant is the object that was assigned atom \<open>a\<close>.  For
  \<open>-size < a \<le> 0\<close> it returns, without error, the object at position \<open>size + a - 1\<close>,
  because the list index \<open>a - 1\<close> is negative and counts from the end.
\<close>

theorem get_object_range:
  "(len f < a \<or> a \<le> - len f \<longrightarrow> get_object f a = Inl IndexError) \<and>
   (1 \<le> a \<and> a \<le> len f \<longrightarrow> get_object f a = Inr (atom_to_obj f ! nat (a - 1))) \<and>
   (bimap_inv f \<and> 1 \<le> a \<and> a \<le> len f \<longrightarrow>
      (\<exists>obj. get_object f a = Inr obj \<and> obj_to_atom f obj = Some a)) \<and>
   (- len f < a \<and> a \<le> 0 \<longrightarrow> get_object f a = Inr (atom_to_obj f ! nat (len f + (a - 1))))"
proof -
  have "bimap_inv f \<Longrightarrow> 1 \<le> a \<Longrightarrow> a \<le> len f \<Longrightarrow>
      obj_to_atom f (atom_to_obj f ! nat (a - 1)) = Some a"
    by (simp add: bimap_inv_def)
  then show ?thesis
    by (auto simp: get_object_def list_getitem_def len_def Let_def)
qed

theorem get_object_range_witness:
  "bimap_inv (snd (getitem (init ''tokens'') ''apples'')) \<and>
   get_object (snd (getitem (init ''tokens'') ''apples'')) 1 = Inr ''apples'' \<and>
   get_object (snd (getitem (init ''tokens'') ''apples'')) 2 = Inl IndexError \<and>
   get_object (snd (getitem (init ''tokens'') ''apples'')) (- 1) = Inl IndexError \<and>
   get_object (snd (getitem (init ''tokens'') ''apples'')) 0 = Inr ''apples''"
  using get_object_range [of "snd (getitem (init ''tokens'') ''apples'')" 1]
        get_object_range [of "snd (getitem (init ''tokens'') ''apples'')" 2]
        get_object_range [of "snd (getitem (init ''tokens'') ''apples'')" "- 1"]
        get_object_range [of "snd (getitem (init ''tokens'') ''apples'')" 0]
  by (simp add: bimap_inv_def len_def getitem_def init_def)

section \<open>Cross-factory remapping: \<open>convertAtom\<close>\<close>




section \<open>Locked factories\<close>

text \<open>
  Claim C8.  After \<open>lock()\<close>, looking up an unseen object raises a \<open>LookupError\<close> (the
  \<open>KeyError\<close> of the dictionary) and leaves the factory as it was, so no atom is
  assigned and the size does not grow; looking up an object that is present returns
  its original atom; and \<open>lock()\<close> is idempotent.
\<close>

theorem locked_lookup:
  "(obj_to_atom f obj = None \<longrightarrow>
      (\<exists>e. getitem (lock f) obj = (Inl e, lock f) \<and> is_LookupError e) \<and>
      len (snd (getitem (lock f) obj)) = len f) \<and>
   (obj_to_atom f obj = Some a \<longrightarrow> getitem (lock f) obj = (Inr a, lock f)) \<and>
   locked (lock f) \<and> lock (lock f) = lock f"
  by (simp add: getitem_def lock_def len_def)

theorem locked_lookup_witness:
  "obj_to_atom (snd (getitem (init ''tokens'') ''apples'')) ''pears'' = None \<and>
   getitem (lock (snd (getitem (init ''tokens'') ''apples''))) ''pears''
     = (Inl KeyError, lock (snd (getitem (init ''tokens'') ''apples''))) \<and>
   obj_to_atom (snd (getitem (init ''tokens'') ''apples'')) ''apples'' = Some 1 \<and>
   getitem (lock (snd (getitem (init ''tokens'') ''apples''))) ''apples''
     = (Inr 1, lock (snd (getitem (init ''tokens'') ''apples'')))"
  using locked_lookup [of "snd (getitem (init ''tokens'') ''apples'')" "''pears''" 0]
        locked_lookup [of "snd (getitem (init ''tokens'') ''apples'')" "''apples''" 1]
  by (simp add: getitem_def init_def lock_def)

















section \<open>The bimap invariant under every operation\<close>




section \<open>Filtered re-derivation: \<open>remove\<close>\<close>

text \<open>
  Claim C7.  For a receiver at address \<open>self\<close> of the store, \<open>remove\<close> returns a newly
  allocated factory and changes no factory that existed before, the receiver included.
  The new factory is unlocked and equals the result of inserting, into an empty
  factory of the receiver's name, the receiver's objects that are not in \<open>objects\<close>, in
  the receiver's order.  It satisfies the bimap invariant, and when the receiver does
  too its object list is exactly the retained objects in order, so they carry the
  atoms \<open>1, 2, ...\<close> without gaps.
\<close>

theorem remove_spec:
  assumes "self < length st"
  shows "\<exists>st'. remove self S st = Inr (length st, st') \<and>
           length st' = Suc (length st) \<and>
           (\<forall>p < length st. st' ! p = st ! p) \<and>
           st' ! self = st ! self \<and>
           st' ! length st =
             inserts (init (name (st ! self))) (filter (\<lambda>x. x \<notin> S) (atom_to_obj (st ! self))) \<and>
           \<not> locked (st' ! length st) \<and>
           bimap_inv (st' ! length st) \<and>
           (bimap_inv (st ! self) \<longrightarrow>
              atom_to_obj (st' ! length st) = filter (\<lambda>x. x \<notin> S) (atom_to_obj (st ! self)) \<and>
              (\<forall>i < length (atom_to_obj (st' ! length st)).
                 obj_to_atom (st' ! length st)
                   (filter (\<lambda>x. x \<notin> S) (atom_to_obj (st ! self)) ! i) = Some (int i + 1)))"
proof -
  define kept where "kept = filter (\<lambda>x. x \<notin> S) (atom_to_obj (st ! self))"
  define g where "g = inserts (init (name (st ! self)) :: 'a AtomFactory) kept"
  have r: "remove self S st = Inr (length st, st @ [g])"
    using remove_eq[OF assms, of S] by (simp add: g_def kept_def)
  have u: "\<not> locked g" by (simp add: g_def inserts_locked_eq init_def)
  have i: "bimap_inv g" unfolding g_def by (rule inv_inserts) (rule inv_init)
  have d: "bimap_inv (st ! self) \<Longrightarrow> atom_to_obj g = kept"
  proof -
    assume "bimap_inv (st ! self)"
    then have "distinct kept" by (simp add: kept_def inv_distinct)
    moreover have "bimap_inv (init (name (st ! self)) :: 'a AtomFactory)" by (rule inv_init)
    moreover have "\<not> locked (init (name (st ! self)) :: 'a AtomFactory)" by (simp add: init_def)
    moreover have "set kept \<inter> set (atom_to_obj (init (name (st ! self)) :: 'a AtomFactory)) = {}"
      by (simp add: init_def)
    ultimately have "atom_to_obj g = atom_to_obj (init (name (st ! self)) :: 'a AtomFactory) @ kept"
      unfolding g_def by (simp add: inserts_fresh)
    then show ?thesis by (simp add: init_def)
  qed
  have e: "bimap_inv (st ! self) \<Longrightarrow> k < length (atom_to_obj g) \<Longrightarrow>
      obj_to_atom g (kept ! k) = Some (int k + 1)" for k
  proof -
    assume b: "bimap_inv (st ! self)" and k: "k < length (atom_to_obj g)"
    from inv_nth [OF i k] have "obj_to_atom g (atom_to_obj g ! k) = Some (int k + 1)" .
    then show ?thesis unfolding d [OF b] .
  qed
  have c1: "remove self S st = Inr (length st, st @ [g])" by (rule r)
  have c2: "length (st @ [g]) = Suc (length st)" by simp
  have c3: "\<forall>p < length st. (st @ [g]) ! p = st ! p" by (simp add: nth_append)
  have c4: "(st @ [g]) ! self = st ! self" using assms by (simp add: nth_append)
  have c5: "(st @ [g]) ! length st = inserts (init (name (st ! self))) (filter (\<lambda>x. x \<notin> S) (atom_to_obj (st ! self)))"
    by (simp add: g_def kept_def)
  have q: "(st @ [g]) ! length st = g" by simp
  have c6: "\<not> locked ((st @ [g]) ! length st)" unfolding q by (rule u)
  have c7: "bimap_inv ((st @ [g]) ! length st)" unfolding q by (rule i)
  have c8: "bimap_inv (st ! self) \<longrightarrow>
              atom_to_obj ((st @ [g]) ! length st) = filter (\<lambda>x. x \<notin> S) (atom_to_obj (st ! self)) \<and>
              (\<forall>i < length (atom_to_obj ((st @ [g]) ! length st)).
                 obj_to_atom ((st @ [g]) ! length st)
                   (filter (\<lambda>x. x \<notin> S) (atom_to_obj (st ! self)) ! i) = Some (int i + 1))"
  proof (intro impI conjI allI)
    assume b: "bimap_inv (st ! self)"
    show "atom_to_obj ((st @ [g]) ! length st) = filter (\<lambda>x. x \<notin> S) (atom_to_obj (st ! self))"
      unfolding q kept_def [symmetric] using b by (rule d)
    fix i assume "i < length (atom_to_obj ((st @ [g]) ! length st))"
    then have "i < length (atom_to_obj g)" unfolding q .
    with b show "obj_to_atom ((st @ [g]) ! length st)
        (filter (\<lambda>x. x \<notin> S) (atom_to_obj (st ! self)) ! i) = Some (int i + 1)"
      unfolding q kept_def [symmetric] by (rule e)
  qed
  show ?thesis
    by (rule exI [of _ "st @ [g]"]) (intro conjI c1 c2 c3 c4 c5 c6 c7 c8)
qed

theorem remove_spec_witness:
  "bimap_inv (snd (getitem (snd (getitem (snd (getitem (init ''n'') ''a'')) ''x'')) ''b'')) \<and>
   (\<exists>st'. remove 0 {''x''}
       [snd (getitem (snd (getitem (snd (getitem (init ''n'') ''a'')) ''x'')) ''b'')]
       = Inr (1, st') \<and>
     st' ! 0 = snd (getitem (snd (getitem (snd (getitem (init ''n'') ''a'')) ''x'')) ''b'') \<and>
     st' ! 1 = snd (getitem (snd (getitem (init ''n'') ''a'')) ''b''))"
proof -
  define f where "f = snd (getitem (snd (getitem (snd (getitem (init ''n'') ''a'')) ''x'')) ''b'')"
  have l: "(0::nat) < length [f]" by simp
  have v: "bimap_inv f" unfolding f_def
    by (rule inv_getitem, rule inv_getitem, rule inv_getitem, rule inv_init)
  have k: "inserts (init (name ([f] ! 0))) (filter (\<lambda>x. x \<notin> {''x''}) (atom_to_obj ([f] ! 0)))
      = snd (getitem (snd (getitem (init ''n'') ''a'')) ''b'')"
    by (simp add: f_def inserts_def getitem_def init_def)
  from remove_spec [OF l, of "{''x''}"] obtain st' where
    a: "remove 0 {''x''} [f] = Inr (length [f], st')" and b: "st' ! 0 = [f] ! 0" and
    c: "st' ! length [f] = inserts (init (name ([f] ! 0))) (filter (\<lambda>x. x \<notin> {''x''}) (atom_to_obj ([f] ! 0)))"
    by (elim exE conjE)
  from a have a': "remove 0 {''x''} [f] = Inr (1, st')" by simp
  from b have b': "st' ! 0 = f" by simp
  from c k have c': "st' ! 1 = snd (getitem (snd (getitem (init ''n'') ''a'')) ''b'')" by simp
  have "remove 0 {''x''} [f] = Inr (1, st') \<and> st' ! 0 = f \<and>
     st' ! 1 = snd (getitem (snd (getitem (init ''n'') ''a'')) ''b'')"
    by (intro conjI a' b' c')
  then have e: "\<exists>st'. remove 0 {''x''} [f] = Inr (1, st') \<and> st' ! 0 = f \<and>
     st' ! 1 = snd (getitem (snd (getitem (init ''n'') ''a'')) ''b'')" ..
  show ?thesis using v e unfolding f_def by (rule conjI)
qed

section \<open>The parsing loop\<close>

lemma loop_append:
  "loop fns state line pre s = Inr (False, state1, line1, rest1, s1) \<Longrightarrow>
   loop fns state line (pre @ sfx) s = loop fns state1 line1 sfx s1"
proof (induction pre arbitrary: state line s)
  case Nil
  then show ?case by simp
next
  case (Cons l pre)
  from Cons.prems obtain fn where fn: "fns state = Some fn"
    by (cases "fns state") simp_all
  obtain r s' where r: "fn l s = (r, s')" by (cases "fn l s")
  show ?case
  proof (cases r)
    case (Goto newstate)
    with Cons.prems fn r have "loop fns newstate (Some l) pre s' = Inr (False, state1, line1, rest1, s1)"
      by simp
    then have "loop fns newstate (Some l) (pre @ sfx) s' = loop fns state1 line1 sfx s1"
      by (rule Cons.IH)
    with Goto fn r show ?thesis by simp
  next
    case Stay
    with Cons.prems fn r have "loop fns state (Some l) pre s' = Inr (False, state1, line1, rest1, s1)"
      by simp
    then have "loop fns state (Some l) (pre @ sfx) s' = loop fns state1 line1 sfx s1"
      by (rule Cons.IH)
    with Stay fn r show ?thesis by simp
  next
    case Stop
    with Cons.prems fn r show ?thesis by simp
  qed
qed

lemma loop_stop:
  "fns state = Some fn \<Longrightarrow> fn l s = (Stop, s') \<Longrightarrow>
   loop fns state line (l # fin) s = Inr (True, state, Some l, fin, s')"
  by simp

text \<open>
  Claim C3 fails on the code at the empty line source: the loop never binds \<open>line\<close>,
  and \<open>self.onFinish(line)\<close> raises \<open>UnboundLocalError\<close> instead of calling the hook
  with an empty value, whatever the subclass, the start state and the parser object.
\<close>

theorem parse_empty_source:
  "parse ons onFinish start [] s = Inl UnboundLocalError"
  by (simp add: parse_def)

text \<open>
  Counterexample to claim C2 as stated: a subclass whose only state function returns
  \<open>False\<close> on the first line and whose \<open>onFinish\<close> records its call.  The second line is
  left unread, and \<open>onFinish\<close> is invoked, with the line on which the handler stopped.
\<close>

theorem parse_stop_counterexample:
  "parse [''Start'' \<mapsto> (\<lambda>line s. (Stop, s @ [(''onStart'', line)]))]
         (\<lambda>line s. s @ [(''onFinish'', line)]) ''Start'' [''a'', ''b''] []
     = Inr ([''b''], [(''onStart'', ''a''), (''onFinish'', ''a'')])"
  by (simp add: parse_def introspect_def)

text \<open>
  Claim C2, amended.  When the lines \<open>pre\<close> have been processed without a stop and the
  handler of the current state returns \<open>False\<close> on the next line \<open>l\<close>, \<open>parse\<close> reads no
  further line (the lines \<open>rest\<close> stay unread), then invokes \<open>onFinish\<close> once, with \<open>l\<close>,
  on the parser object the handler left, and returns.
\<close>

theorem parse_stop:
  assumes "loop (introspect ons onFinish) start None pre s = Inr (False, state, line, [], s1)"
      and "introspect ons onFinish state = Some fn"
      and "fn l s1 = (Stop, s2)"
  shows "parse ons onFinish start (pre @ l # rest) s = Inr (rest, onFinish l s2)"
proof -
  have "loop (introspect ons onFinish) start None (pre @ l # rest) s
      = loop (introspect ons onFinish) state line (l # rest) s1"
    using assms(1) by (rule loop_append)
  also have "\<dots> = Inr (True, state, Some l, rest, s2)"
    using assms(2,3) by (rule loop_stop)
  finally show ?thesis by (simp add: parse_def)
qed


theorem parse_stop_witness:
  "loop (introspect TrecParser_ons TrecParser_onFinish) ''Misc'' None
        [''<DOCNO> D1 </DOCNO>'', ''<TEXT>'', ''hello'']
        (TrecParser_init (\<lambda>h r. ReturnsFalse))
     = Inr (False, ''Text'', Some ''hello'', [],
            \<lparr>docid = Some ''D1'', textlines = [''hello''],
             callback = \<lambda>h r. ReturnsFalse, calls = []\<rparr>) \<and>
   parse TrecParser_ons TrecParser_onFinish ''Misc''
        ([''<DOCNO> D1 </DOCNO>'', ''<TEXT>'', ''hello''] @ ''</TEXT>'' # [''<DOCNO> D2 </DOCNO>''])
        (TrecParser_init (\<lambda>h r. ReturnsFalse))
     = Inr ([''<DOCNO> D2 </DOCNO>''],
            \<lparr>docid = Some ''D1'', textlines = [''hello''],
             callback = \<lambda>h r. ReturnsFalse, calls = [(Some ''D1'', ''hello'')]\<rparr>)"
proof -
  have a: "loop (introspect TrecParser_ons TrecParser_onFinish) ''Misc'' None
        [''<DOCNO> D1 </DOCNO>'', ''<TEXT>'', ''hello'']
        (TrecParser_init (\<lambda>h r. ReturnsFalse))
     = Inr (False, ''Text'', Some ''hello'', [],
            \<lparr>docid = Some ''D1'', textlines = [''hello''],
             callback = \<lambda>h r. ReturnsFalse, calls = []\<rparr>)"
    by (simp add: introspect_def TrecParser_ons_def TrecParser_init_def TrecParser_onMisc_def
          TrecParser_onGotDocId_def TrecParser_onText_def startswith_def find_from_def
          slice_def clip_def strip_def isspace_def)
  have b: "introspect TrecParser_ons TrecParser_onFinish ''Text'' = Some TrecParser_onText"
    by (simp add: introspect_def TrecParser_ons_def)
  have c: "TrecParser_onText ''</TEXT>''
        \<lparr>docid = Some ''D1'', textlines = [''hello''],
         callback = \<lambda>h r. ReturnsFalse, calls = []\<rparr>
      = (Stop, \<lparr>docid = Some ''D1'', textlines = [''hello''],
                 callback = \<lambda>h r. ReturnsFalse, calls = [(Some ''D1'', ''hello'')]\<rparr>)"
    by (simp add: TrecParser_onText_def startswith_def)
  show ?thesis
    using a parse_stop [OF a b c, of "[''<DOCNO> D2 </DOCNO>'']"]
    by (simp add: TrecParser_onFinish_def)
qed

section \<open>The record callback and the stop signal\<close>

text \<open>
  Claim C1 on the code, at a SMART stream of two documents and a callback that returns
  \<open>False\<close> on every record: \<open>doCallBack\<close> drops what the callback returns, so the
  parser reads every line and invokes the callback a second time, for document \<open>2\<close>.
\<close>

theorem SMARTParser_callback_stop_ignored:
  "map_sum id (\<lambda>(rest, self). (rest, calls self))
     (SMARTParser_parse (\<lambda>h r. ReturnsFalse) None
        [ln ''.I 1'', ln ''.C'', ln ''c 1'', ln ''.W'', ln ''hello'',
         ln ''.I 2'', ln ''.C'', ln ''d 1'', ln ''.W'', ln ''world''])
     = Inr ([], [(Some ''1'', Some [''c''], ln ''hello''), (Some ''2'', Some [''d''], ln ''world'')])"
  by code_simp

section \<open>Tolerant parsing in state \<open>GotDocId\<close> of the SMARTParser\<close>

text \<open>
  Claim C9.  In state \<open>GotDocId\<close> a line that does not start with \<open>.C\<close>, and so a line
  that starts with \<open>.I\<close>, is ignored: the handler asks to stay and returns the parser
  object as it was (\<open>docid\<close>, \<open>cats\<close>, \<open>textlines\<close> and \<open>sectionheader\<close> included), and the
  loop goes on in state \<open>GotDocId\<close> with the next line, so the \<open>.I\<close> line starts no
  record.
\<close>

theorem SMARTParser_GotDocId_ignores:
  assumes "\<not> startswith line ''.C'' \<or> startswith line ''.I''"
  shows "SMARTParser_onGotDocId line self = (Stay, self) \<and>
         loop (introspect SMARTParser_ons SMARTParser_onFinish) ''GotDocId'' prev (line # fin) self
           = loop (introspect SMARTParser_ons SMARTParser_onFinish) ''GotDocId'' (Some line) fin self"
proof -
  have "startswith line ''.I'' \<Longrightarrow> \<not> startswith line ''.C''"
    by (cases line rule: list.exhaust; cases "tl line" rule: list.exhaust)
       (auto simp: startswith_def)
  with assms have n: "\<not> startswith line ''.C''" by blast
  then have h: "SMARTParser_onGotDocId line self = (Stay, self)"
    by (simp add: SMARTParser_onGotDocId_def)
  have t: "introspect SMARTParser_ons SMARTParser_onFinish ''GotDocId'' = Some SMARTParser_onGotDocId"
    by (simp add: introspect_def SMARTParser_ons_def)
  show ?thesis using h t by simp
qed

theorem SMARTParser_GotDocId_ignores_witness:
  "startswith (ln ''.I 2'') ''.I'' \<and>
   SMARTParser_onMisc (ln ''.I 1'') (SMARTParser_init (\<lambda>h r. ReturnsOther) None)
     = (Goto ''GotDocId'', (SMARTParser_init (\<lambda>h r. ReturnsOther) None)\<lparr>docid := Some ''1''\<rparr>) \<and>
   SMARTParser_onGotDocId (ln ''.I 2'')
       ((SMARTParser_init (\<lambda>h r. ReturnsOther) None)\<lparr>docid := Some ''1''\<rparr>)
     = (Stay, (SMARTParser_init (\<lambda>h r. ReturnsOther) None)\<lparr>docid := Some ''1''\<rparr>)"
proof -
  have a: "\<not> startswith (ln ''.I 2'') ''.C'' \<or> startswith (ln ''.I 2'') ''.I''"
    by (simp add: startswith_def ln_def)
  have b: "startswith (ln ''.I 2'') ''.I''"
    by (simp add: startswith_def ln_def)
  have c: "SMARTParser_onMisc (ln ''.I 1'') (SMARTParser_init (\<lambda>h r. ReturnsOther) None)
     = (Goto ''GotDocId'', (SMARTParser_init (\<lambda>h r. ReturnsOther) None)\<lparr>docid := Some ''1''\<rparr>)"
    by (simp add: SMARTParser_onMisc_def SMARTParser_init_def startswith_def ln_def strip_def isspace_def)
  from SMARTParser_GotDocId_ignores [OF a] have d: "SMARTParser_onGotDocId (ln ''.I 2'')
       ((SMARTParser_init (\<lambda>h r. ReturnsOther) None)\<lparr>docid := Some ''1''\<rparr>)
     = (Stay, (SMARTParser_init (\<lambda>h r. ReturnsOther) None)\<lparr>docid := Some ''1''\<rparr>)"
    by (rule conjunct1)
  show ?thesis using b c d by (intro conjI)
qed

lemma loop_snoc_False:
  "loop fns state line (xs @ [l]) s = Inr (False, state', line', rest', s') \<Longrightarrow>
   \<exists>state1 line1 s1. loop fns state line xs s = Inr (False, state1, line1, [], s1)"
proof (induction xs arbitrary: state line s)
  case Nil
  show ?case by simp
next
  case (Cons x xs)
  from Cons.prems obtain fn where fn: "fns state = Some fn"
    by (cases "fns state") simp_all
  obtain r s2 where r: "fn x s = (r, s2)" by (cases "fn x s")
  show ?case
  proof (cases r)
    case (Goto newstate)
    with Cons.prems fn r have
      "loop fns newstate (Some x) (xs @ [l]) s2 = Inr (False, state', line', rest', s')"
      by simp
    then have "\<exists>state1 line1 s1. loop fns newstate (Some x) xs s2 = Inr (False, state1, line1, [], s1)"
      by (rule Cons.IH)
    with Goto fn r show ?thesis by simp
  next
    case Stay
    with Cons.prems fn r have
      "loop fns state (Some x) (xs @ [l]) s2 = Inr (False, state', line', rest', s')"
      by simp
    then have "\<exists>state1 line1 s1. loop fns state (Some x) xs s2 = Inr (False, state1, line1, [], s1)"
      by (rule Cons.IH)
    with Stay fn r show ?thesis by simp
  next
    case Stop
    with Cons.prems fn r show ?thesis by simp
  qed
qed

lemma TrecParser_step_into_Text:
  assumes "loop (introspect TrecParser_ons TrecParser_onFinish) state1 line1 [l] s1
             = Inr (False, ''Text'', line, [], self)"
  shows "(state1 = ''Text'' \<and> \<not> startswith l ''</TEXT>'' \<and>
            self = s1\<lparr>textlines := textlines s1 @ [l]\<rparr>) \<or>
         (state1 = ''GotDocId'' \<and> startswith l ''<TEXT>'' \<and> self = s1)"
  using assms
  by (simp add: introspect_def TrecParser_ons_def TrecParser_onMisc_def TrecParser_onGotDocId_def
        TrecParser_onText_def TrecParser_onFinish_def Let_def split: if_splits)


lemma TrecParser_Text_decompose:
  "loop (introspect TrecParser_ons TrecParser_onFinish) ''Misc'' None fin s_init
      = Inr (False, ''Text'', line, [], self) \<Longrightarrow>
   \<exists>pre t body l0 s0.
      fin = pre @ t # body \<and> startswith t ''<TEXT>'' \<and>
      (\<forall>l \<in> set body. \<not> startswith l ''</TEXT>'') \<and>
      loop (introspect TrecParser_ons TrecParser_onFinish) ''Misc'' None pre s_init
        = Inr (False, ''GotDocId'', l0, [], s0) \<and>
      self = s0\<lparr>textlines := textlines s0 @ body\<rparr>"
proof (induction fin arbitrary: line self rule: rev_induct)
  case Nil
  then show ?case by simp
next
  case (snoc l xs)
  let ?T = "introspect TrecParser_ons TrecParser_onFinish"
  from snoc.prems have
    "\<exists>state1 line1 s1. loop ?T ''Misc'' None xs s_init = Inr (False, state1, line1, [], s1)"
    by (rule loop_snoc_False)
  then obtain state1 line1 s1 where
    p: "loop ?T ''Misc'' None xs s_init = Inr (False, state1, line1, [], s1)"
    by (elim exE)
  then have "loop ?T ''Misc'' None (xs @ [l]) s_init = loop ?T state1 line1 [l] s1"
    by (rule loop_append)
  with snoc.prems have "loop ?T state1 line1 [l] s1 = Inr (False, ''Text'', line, [], self)"
    by simp
  then have "(state1 = ''Text'' \<and> \<not> startswith l ''</TEXT>'' \<and>
            self = s1\<lparr>textlines := textlines s1 @ [l]\<rparr>) \<or>
         (state1 = ''GotDocId'' \<and> startswith l ''<TEXT>'' \<and> self = s1)"
    by (rule TrecParser_step_into_Text)
  then show ?case
  proof (elim disjE conjE)
    assume st: "state1 = ''Text''" and n: "\<not> startswith l ''</TEXT>''"
       and e: "self = s1\<lparr>textlines := textlines s1 @ [l]\<rparr>"
    from p st have "loop ?T ''Misc'' None xs s_init = Inr (False, ''Text'', line1, [], s1)"
      by simp
    then have "\<exists>pre t body l0 s0.
        xs = pre @ t # body \<and> startswith t ''<TEXT>'' \<and>
        (\<forall>l \<in> set body. \<not> startswith l ''</TEXT>'') \<and>
        loop ?T ''Misc'' None pre s_init = Inr (False, ''GotDocId'', l0, [], s0) \<and>
        s1 = s0\<lparr>textlines := textlines s0 @ body\<rparr>"
      by (rule snoc.IH)
    then obtain pre t body l0 s0 where
      d: "xs = pre @ t # body" "startswith t ''<TEXT>''"
         "\<forall>l \<in> set body. \<not> startswith l ''</TEXT>''"
         "loop ?T ''Misc'' None pre s_init = Inr (False, ''GotDocId'', l0, [], s0)"
         "s1 = s0\<lparr>textlines := textlines s0 @ body\<rparr>"
      by (elim exE conjE)
    have 1: "xs @ [l] = pre @ t # (body @ [l])" using d(1) by simp
    have 3: "\<forall>l' \<in> set (body @ [l]). \<not> startswith l' ''</TEXT>''" using d(3) n by simp
    have 5: "self = s0\<lparr>textlines := textlines s0 @ (body @ [l])\<rparr>" using e d(5) by simp
    show ?thesis
      by (rule exI [of _ pre], rule exI [of _ t], rule exI [of _ "body @ [l]"],
          rule exI [of _ l0], rule exI [of _ s0]) (intro conjI 1 d(2) 3 d(4) 5)
  next
    assume st: "state1 = ''GotDocId''" and b: "startswith l ''<TEXT>''" and e: "self = s1"
    have 1: "xs @ [l] = xs @ l # []" by simp
    have 3: "\<forall>l' \<in> set []. \<not> startswith l' ''</TEXT>''" by simp
    have 4: "loop ?T ''Misc'' None xs s_init = Inr (False, ''GotDocId'', line1, [], s1)"
      using p st by simp
    have 5: "self = s1\<lparr>textlines := textlines s1 @ []\<rparr>" using e by simp
    show ?thesis
      by (rule exI [of _ xs], rule exI [of _ l], rule exI [of _ "[]"],
          rule exI [of _ line1], rule exI [of _ s1]) (intro conjI 1 b 3 4 5)
  qed
qed

lemma TrecParser_close_text:
  assumes "loop (introspect TrecParser_ons TrecParser_onFinish) ''Misc'' None fin (TrecParser_init cb)
             = Inr (False, ''Text'', line, [], self)"
      and "startswith c ''</TEXT>''"
  shows "\<exists>rest self'. TrecParser_parse cb (fin @ [c]) = Inr (rest, self') \<and>
           calls self' = calls self @ [(docid self, concat (textlines self))]"
proof -
  let ?T = "introspect TrecParser_ons TrecParser_onFinish"
  have a: "loop ?T ''Misc'' None (fin @ [c]) (TrecParser_init cb) = loop ?T ''Text'' line [c] self"
    using assms(1) by (rule loop_append)
  have t: "?T ''Text'' = Some TrecParser_onText"
    by (simp add: introspect_def TrecParser_ons_def)
  show ?thesis
  proof (cases "callback self (calls self) (docid self, concat (textlines self)) = ReturnsFalse")
    case True
    then show ?thesis
      using assms(2) a t
      by (simp add: TrecParser_parse_def parse_def TrecParser_onText_def TrecParser_onFinish_def Let_def)
  next
    case False
    then show ?thesis
      using assms(2) a t
      by (simp add: TrecParser_parse_def parse_def TrecParser_onText_def TrecParser_onFinish_def Let_def)
  qed
qed

section \<open>A TREC stream that ends inside \<open><TEXT>\<close>\<close>

text \<open>
  Claim C10.  When the lines run out while the TrecParser is in state \<open>Text\<close>, the
  stream consists of lines \<open>pre\<close> that left the parser waiting in \<open>GotDocId\<close>, the
  \<open><TEXT>\<close> line, and lines of which none starts with \<open></TEXT>\<close>.  \<open>onText\<close> appended
  those lines to \<open>textlines\<close> and invoked nothing: the callback has received exactly
  the records it had received before the \<open><TEXT>\<close> line.  The \<open>onFinish\<close> of the
  TrecParser is the inherited one, which does nothing, so \<open>parse\<close> returns the parser
  object exactly as the loop left it, and the \<open>docid\<close> and \<open>textlines\<close> of the
  unterminated document are never delivered.  One more line starting with \<open></TEXT>\<close>
  would have delivered them as one further record.
\<close>

theorem TrecParser_truncated_text:
  assumes "loop (introspect TrecParser_ons TrecParser_onFinish) ''Misc'' None fin (TrecParser_init cb)
             = Inr (False, ''Text'', Some line, [], self)"
  shows "TrecParser_parse cb fin = Inr ([], self) \<and>
         TrecParser_onFinish line self = self \<and>
         (\<forall>rest self'. TrecParser_parse cb fin = Inr (rest, self') \<longrightarrow> calls self' = calls self) \<and>
         (\<exists>pre t body l0 s0.
            fin = pre @ t # body \<and> startswith t ''<TEXT>'' \<and>
            (\<forall>l \<in> set body. \<not> startswith l ''</TEXT>'') \<and>
            loop (introspect TrecParser_ons TrecParser_onFinish) ''Misc'' None pre (TrecParser_init cb)
              = Inr (False, ''GotDocId'', l0, [], s0) \<and>
            self = s0\<lparr>textlines := textlines s0 @ body\<rparr> \<and>
            calls self = calls s0) \<and>
         (\<forall>c. startswith c ''</TEXT>'' \<longrightarrow>
            (\<exists>rest self'. TrecParser_parse cb (fin @ [c]) = Inr (rest, self') \<and>
               calls self' = calls self @ [(docid self, concat (textlines self))]))"
proof -
  have 1: "TrecParser_parse cb fin = Inr ([], self)"
    using assms by (simp add: TrecParser_parse_def parse_def TrecParser_onFinish_def)
  have 2: "TrecParser_onFinish line self = self"
    by (simp add: TrecParser_onFinish_def)
  have 3: "\<forall>rest self'. TrecParser_parse cb fin = Inr (rest, self') \<longrightarrow> calls self' = calls self"
    using 1 by simp
  from assms have "\<exists>pre t body l0 s0.
      fin = pre @ t # body \<and> startswith t ''<TEXT>'' \<and>
      (\<forall>l \<in> set body. \<not> startswith l ''</TEXT>'') \<and>
      loop (introspect TrecParser_ons TrecParser_onFinish) ''Misc'' None pre (TrecParser_init cb)
        = Inr (False, ''GotDocId'', l0, [], s0) \<and>
      self = s0\<lparr>textlines := textlines s0 @ body\<rparr>"
    by (rule TrecParser_Text_decompose)
  then obtain pre t body l0 s0 where
    d: "fin = pre @ t # body" "startswith t ''<TEXT>''"
       "\<forall>l \<in> set body. \<not> startswith l ''</TEXT>''"
       "loop (introspect TrecParser_ons TrecParser_onFinish) ''Misc'' None pre (TrecParser_init cb)
          = Inr (False, ''GotDocId'', l0, [], s0)"
       "self = s0\<lparr>textlines := textlines s0 @ body\<rparr>"
    by (elim exE conjE)
  have c: "calls self = calls s0" using d(5) by simp
  have 4: "\<exists>pre t body l0 s0.
            fin = pre @ t # body \<and> startswith t ''<TEXT>'' \<and>
            (\<forall>l \<in> set body. \<not> startswith l ''</TEXT>'') \<and>
            loop (introspect TrecParser_ons TrecParser_onFinish) ''Misc'' None pre (TrecParser_init cb)
              = Inr (False, ''GotDocId'', l0, [], s0) \<and>
            self = s0\<lparr>textlines := textlines s0 @ body\<rparr> \<and>
            calls self = calls s0"
    by (rule exI [of _ pre], rule exI [of _ t], rule exI [of _ body],
        rule exI [of _ l0], rule exI [of _ s0]) (intro conjI d c)
  have 5: "\<forall>c. startswith c ''</TEXT>'' \<longrightarrow>
            (\<exists>rest self'. TrecParser_parse cb (fin @ [c]) = Inr (rest, self') \<and>
               calls self' = calls self @ [(docid self, concat (textlines self))])"
    using assms by (intro allI impI) (rule TrecParser_close_text)
  show ?thesis using 1 2 3 4 5 by - (intro conjI, assumption+)
qed

theorem TrecParser_truncated_text_witness:
  "loop (introspect TrecParser_ons TrecParser_onFinish) ''Misc'' None
        [ln ''<DOCNO> D1 </DOCNO>'', ln ''<TEXT>'', ln ''hello'']
        (TrecParser_init (\<lambda>h r. ReturnsOther))
     = Inr (False, ''Text'', Some (ln ''hello''), [],
            \<lparr>docid = Some ''D1'', textlines = [ln ''hello''],
             callback = \<lambda>h r. ReturnsOther, calls = []\<rparr>) \<and>
   TrecParser_parse (\<lambda>h r. ReturnsOther) [ln ''<DOCNO> D1 </DOCNO>'', ln ''<TEXT>'', ln ''hello'']
     = Inr ([], \<lparr>docid = Some ''D1'', textlines = [ln ''hello''],
                 callback = \<lambda>h r. ReturnsOther, calls = []\<rparr>) \<and>
   (\<exists>rest self'.
      TrecParser_parse (\<lambda>h r. ReturnsOther)
        ([ln ''<DOCNO> D1 </DOCNO>'', ln ''<TEXT>'', ln ''hello''] @ [ln ''</TEXT>''])
        = Inr (rest, self') \<and>
      calls self' = [(Some ''D1'', ln ''hello'')])"
proof -
  define self where "self = \<lparr>docid = Some ''D1'', textlines = [ln ''hello''],
             callback = (\<lambda>h r. ReturnsOther) :: (string option \<times> string) list \<Rightarrow> _,
             calls = []\<rparr>"
  have a: "loop (introspect TrecParser_ons TrecParser_onFinish) ''Misc'' None
        [ln ''<DOCNO> D1 </DOCNO>'', ln ''<TEXT>'', ln ''hello'']
        (TrecParser_init (\<lambda>h r. ReturnsOther))
     = Inr (False, ''Text'', Some (ln ''hello''), [], self)"
    by (simp add: self_def introspect_def TrecParser_ons_def TrecParser_init_def TrecParser_onMisc_def
          TrecParser_onGotDocId_def TrecParser_onText_def startswith_def find_from_def
          slice_def clip_def strip_def isspace_def ln_def)
  note t = TrecParser_truncated_text [OF a]
  from t have b: "TrecParser_parse (\<lambda>h r. ReturnsOther)
        [ln ''<DOCNO> D1 </DOCNO>'', ln ''<TEXT>'', ln ''hello''] = Inr ([], self)"
    by (rule conjunct1)
  from t have q: "\<forall>c. startswith c ''</TEXT>'' \<longrightarrow>
      (\<exists>rest self'. TrecParser_parse (\<lambda>h r. ReturnsOther)
           ([ln ''<DOCNO> D1 </DOCNO>'', ln ''<TEXT>'', ln ''hello''] @ [c]) = Inr (rest, self') \<and>
         calls self' = calls self @ [(docid self, concat (textlines self))])"
    by (elim conjE)
  have s: "startswith (ln ''</TEXT>'') ''</TEXT>''" by (simp add: startswith_def ln_def)
  have k: "calls self @ [(docid self, concat (textlines self))] = [(Some ''D1'', ln ''hello'')]"
    by (simp add: self_def)
  have c: "\<exists>rest self'. TrecParser_parse (\<lambda>h r. ReturnsOther)
           ([ln ''<DOCNO> D1 </DOCNO>'', ln ''<TEXT>'', ln ''hello''] @ [ln ''</TEXT>''])
             = Inr (rest, self') \<and>
         calls self' = [(Some ''D1'', ln ''hello'')]"
    using q [THEN spec, THEN mp, OF s] unfolding k .
  show ?thesis using a b c unfolding self_def by (intro conjI)
qed

end
